theory Spec2Isabelle
  imports Main "HOL-Library.AList" "HOL-Library.Word"
begin

section \<open>Data model\<close>

text \<open>
  The file \<^verbatim>\<open>storage/httpCommunicator.go\<close> forwards telemetry commands to a remote
  store. A Go \<^verbatim>\<open>map[string]X\<close> is modelled as an association list whose keys are
  pairwise distinct (\<open>wf_gomap\<close>); the order of the list stands for the order in which
  one run of \<^verbatim>\<open>range\<close> visits the entries, which Go leaves unspecified. No theorem
  below depends on that order.
\<close>

type_synonym 'v gomap = "(string \<times> 'v) list"

definition wf_gomap :: "'v gomap \<Rightarrow> bool" where
  "wf_gomap m = distinct (map fst m)"

definition gokeys :: "'v gomap \<Rightarrow> string set" where
  "gokeys m = set (map fst m)"

text \<open>
  Modelled from the spec: \<^verbatim>\<open>net.Number\<close> and \<^verbatim>\<open>net.Millis\<close> are declared
  outside this file. A number is an integer value (\<^verbatim>\<open>net.Int64\<close>), a timestamp a count
  of milliseconds.
\<close>

type_synonym Number = int
type_synonym Millis = nat

text \<open>
  Modelled from the spec: \<^verbatim>\<open>net.SeriesCommand\<close> carries an entity name, a mapping of
  tags, optionally a timestamp (a nil pointer is \<open>None\<close>) and a mapping from metric
  names to values. The fields are read through \<^verbatim>\<open>Timestamp()\<close>, \<^verbatim>\<open>Entity()\<close>,
  \<^verbatim>\<open>Metrics()\<close> and \<^verbatim>\<open>Tags()\<close>.
\<close>

record SeriesCommand =
  sc_Timestamp :: "Millis option"
  sc_Entity :: string
  sc_Metrics :: "Number gomap"
  sc_Tags :: "string gomap"

text \<open>
  Modelled from the spec: \<^verbatim>\<open>Chunk\<close> is an ordered, poppable sequence of series
  commands with \<^verbatim>\<open>Len\<close>, \<^verbatim>\<open>Front\<close> and \<^verbatim>\<open>Remove\<close>. The transformer only ever
  removes the element that \<^verbatim>\<open>Front\<close> returned.
\<close>

type_synonym Chunk = "SeriesCommand list"

definition Len :: "Chunk \<Rightarrow> nat" where
  "Len ch = length ch"

definition Front :: "Chunk \<Rightarrow> SeriesCommand option" where
  "Front ch = (case ch of [] \<Rightarrow> None | el # _ \<Rightarrow> Some el)"

definition Remove_front :: "Chunk \<Rightarrow> Chunk" where
  "Remove_front ch = (case ch of [] \<Rightarrow> [] | _ # rest \<Rightarrow> rest)"

text \<open>The wire objects \<^verbatim>\<open>http.Sample\<close> and \<^verbatim>\<open>http.Series\<close>, with the fields the code sets.\<close>

record Sample =
  T :: Millis
  V :: Number

record Series =
  Entity :: string
  Metric :: string
  Tags :: "string gomap"
  Data :: "Sample list"

text \<open>\<^verbatim>\<open>panic("Nil timestamp!")\<close> is the only failure the transformers raise themselves.\<close>

datatype error = NilTimestamp

section \<open>Series transformation\<close>

subsection \<open>\<^verbatim>\<open>seriesCommandsToSeries\<close>\<close>

text \<open>The inner loop \<^verbatim>\<open>for key, val := range metrics\<close>: one wire object per entry.\<close>

fun appendSeries :: "SeriesCommand \<Rightarrow> Millis \<Rightarrow> Number gomap \<Rightarrow> Series list \<Rightarrow> Series list" where
  "appendSeries command timestamp [] series = series"
| "appendSeries command timestamp ((key, val) # metrics) series =
     appendSeries command timestamp metrics
       (series @ [\<lparr>Entity = sc_Entity command, Metric = key, Tags = sc_Tags command,
                   Data = [\<lparr>T = timestamp, V = val\<rparr>]\<rparr>])"

text \<open>The outer loop over the commands; the timestamp is checked before the metrics are read.\<close>

fun seriesCommandsLoop :: "SeriesCommand list \<Rightarrow> Series list \<Rightarrow> error + Series list" where
  "seriesCommandsLoop [] series = Inr series"
| "seriesCommandsLoop (command # rest) series =
     (case sc_Timestamp command of
        None \<Rightarrow> Inl NilTimestamp
      | Some timestamp \<Rightarrow>
          seriesCommandsLoop rest (appendSeries command timestamp (sc_Metrics command) series))"

definition seriesCommandsToSeries :: "SeriesCommand list \<Rightarrow> error + Series list" where
  "seriesCommandsToSeries seriesCommands = seriesCommandsLoop seriesCommands []"

subsection \<open>\<^verbatim>\<open>seriesCommandsChunkToSeries\<close>\<close>

text \<open>
  \<^verbatim>\<open>seriesMap\<close> is a Go map from metric name to wire object. The inner loop creates the
  entry of a metric that has none, with the entity and tags of the command at hand, then
  checks the timestamp, then appends the sample to the entry.
\<close>

fun chunkMetricsLoop :: "SeriesCommand \<Rightarrow> Number gomap \<Rightarrow> Series gomap \<Rightarrow> error + Series gomap" where
  "chunkMetricsLoop seriesCommand [] seriesMap = Inr seriesMap"
| "chunkMetricsLoop seriesCommand ((key, val) # metrics) seriesMap =
     (let seriesMap1 =
        (case map_of seriesMap key of
           None \<Rightarrow> AList.update key \<lparr>Entity = sc_Entity seriesCommand, Metric = key,
                                      Tags = sc_Tags seriesCommand, Data = []\<rparr> seriesMap
         | Some _ \<Rightarrow> seriesMap)
      in case sc_Timestamp seriesCommand of
           None \<Rightarrow> Inl NilTimestamp
         | Some timestamp \<Rightarrow>
             chunkMetricsLoop seriesCommand metrics
               (AList.map_entry key (\<lambda>s. s\<lparr>Data := Data s @ [\<lparr>T = timestamp, V = val\<rparr>]\<rparr>) seriesMap1))"

text \<open>
  The drain loop \<^verbatim>\<open>for el := Front(); el != nil; el = Front()\<close>, which ends with
  \<^verbatim>\<open>Remove(el)\<close>. It returns the map together with what is left of the chunk.
\<close>

function chunkDrainLoop :: "Chunk \<Rightarrow> Series gomap \<Rightarrow> error + (Series gomap \<times> Chunk)" where
  "chunkDrainLoop seriesCommandsChunk seriesMap =
     (case Front seriesCommandsChunk of
        None \<Rightarrow> Inr (seriesMap, seriesCommandsChunk)
      | Some seriesCommand \<Rightarrow>
          (case chunkMetricsLoop seriesCommand (sc_Metrics seriesCommand) seriesMap of
             Inl e \<Rightarrow> Inl e
           | Inr seriesMap' \<Rightarrow> chunkDrainLoop (Remove_front seriesCommandsChunk) seriesMap'))"
  by pat_completeness auto
termination
  by (relation "measure (\<lambda>(ch, m). length ch)")
     (auto simp: Front_def Remove_front_def split: list.splits)

declare chunkDrainLoop.simps [simp del]

text \<open>
  The whole function: the wire objects and the chunk as the call leaves it. The last loop
  ranges over \<^verbatim>\<open>seriesMap\<close>; the list here is in the order the keys were inserted.
\<close>

definition seriesCommandsChunkToSeries :: "Chunk \<Rightarrow> error + (Series list \<times> Chunk)" where
  "seriesCommandsChunkToSeries seriesCommandsChunk =
     (if Len seriesCommandsChunk > 0 then
        (case chunkDrainLoop seriesCommandsChunk [] of
           Inl e \<Rightarrow> Inl e
         | Inr (seriesMap, chunk') \<Rightarrow> Inr (map snd seriesMap, chunk'))
      else Inr ([], seriesCommandsChunk))"

section \<open>The other transformers\<close>

text \<open>
  Modelled from the spec: the entity-tag, property and message commands of package
  \<^verbatim>\<open>net\<close> and the wire objects \<^verbatim>\<open>http.Entity\<close>, \<^verbatim>\<open>http.Property\<close> and
  \<^verbatim>\<open>http.Message\<close> with their setters are declared outside this file. A wire field
  that no setter has touched is \<open>None\<close>; \<^verbatim>\<open>SetTag\<close> stores one entry in the tag map of
  the object, replacing the value of a key that is present.
\<close>

record EntityTagCommand =
  etc_Entity :: string
  etc_Tags :: "string gomap"

record PropertyCommand =
  pc_PropType :: string
  pc_Entity :: string
  pc_Key :: "string gomap"
  pc_Tags :: "string gomap"
  pc_Timestamp :: "Millis option"

record MessageCommand =
  mc_Entity :: string
  mc_Message :: string
  mc_Tags :: "string gomap"
  mc_Timestamp :: "Millis option"

record WireEntity =
  e_Name :: string
  e_Tags :: "string gomap"

record Property =
  p_Type :: string
  p_Entity :: string
  p_Key :: "string gomap"
  p_Tags :: "string gomap"
  p_Timestamp :: "Millis option"

record Message =
  m_Entity :: string
  m_Message :: string
  m_Severity :: "string option"
  m_Source :: "string option"
  m_Type :: "string option"
  m_Tags :: "string gomap"
  m_Timestamp :: "Millis option"

definition NewEntity :: "string \<Rightarrow> WireEntity" where
  "NewEntity name = \<lparr>e_Name = name, e_Tags = []\<rparr>"

definition Entity_SetTag :: "string \<Rightarrow> string \<Rightarrow> WireEntity \<Rightarrow> WireEntity" where
  "Entity_SetTag key val entity = entity\<lparr>e_Tags := AList.update key val (e_Tags entity)\<rparr>"

fun entitySetTags :: "string gomap \<Rightarrow> WireEntity \<Rightarrow> WireEntity" where
  "entitySetTags [] entity = entity"
| "entitySetTags ((key, val) # tags) entity = entitySetTags tags (Entity_SetTag key val entity)"

fun entityTagCommandsLoop :: "EntityTagCommand list \<Rightarrow> WireEntity list \<Rightarrow> WireEntity list" where
  "entityTagCommandsLoop [] entities = entities"
| "entityTagCommandsLoop (command # rest) entities =
     entityTagCommandsLoop rest
       (entities @ [entitySetTags (etc_Tags command) (NewEntity (etc_Entity command))])"

definition entityTagCommandsToEntities :: "EntityTagCommand list \<Rightarrow> WireEntity list" where
  "entityTagCommandsToEntities entityTagCommands = entityTagCommandsLoop entityTagCommands []"

definition NewProperty :: "string \<Rightarrow> string \<Rightarrow> Property" where
  "NewProperty propType entity =
     \<lparr>p_Type = propType, p_Entity = entity, p_Key = [], p_Tags = [], p_Timestamp = None\<rparr>"

fun propertyCommandsLoop :: "PropertyCommand list \<Rightarrow> Property list \<Rightarrow> Property list" where
  "propertyCommandsLoop [] properties = properties"
| "propertyCommandsLoop (propertyCommand # rest) properties =
     (let property = (NewProperty (pc_PropType propertyCommand) (pc_Entity propertyCommand))
                       \<lparr>p_Key := pc_Key propertyCommand, p_Tags := pc_Tags propertyCommand\<rparr>;
          property' = (case pc_Timestamp propertyCommand of
                         None \<Rightarrow> property
                       | Some t \<Rightarrow> property\<lparr>p_Timestamp := Some t\<rparr>)
      in propertyCommandsLoop rest (properties @ [property']))"

definition propertyCommandsToProperties :: "PropertyCommand list \<Rightarrow> Property list" where
  "propertyCommandsToProperties propertyCommands = propertyCommandsLoop propertyCommands []"

definition NewMessage :: "string \<Rightarrow> Message" where
  "NewMessage entity =
     \<lparr>m_Entity = entity, m_Message = [], m_Severity = None, m_Source = None, m_Type = None,
      m_Tags = [], m_Timestamp = None\<rparr>"

definition Message_SetTag :: "string \<Rightarrow> string \<Rightarrow> Message \<Rightarrow> Message" where
  "Message_SetTag key val message = message\<lparr>m_Tags := AList.update key val (m_Tags message)\<rparr>"

text \<open>
  The loop over the tags of a message command: three tests that route a reserved key to
  its own field, none of them exclusive, then \<^verbatim>\<open>SetTag\<close> for every key.
\<close>

fun messageTagsLoop :: "string gomap \<Rightarrow> Message \<Rightarrow> Message" where
  "messageTagsLoop [] message = message"
| "messageTagsLoop ((key, val) # tags) message =
     (let message1 = (if key = ''severity'' then message\<lparr>m_Severity := Some val\<rparr> else message);
          message2 = (if key = ''source'' then message1\<lparr>m_Source := Some val\<rparr> else message1);
          message3 = (if key = ''type'' then message2\<lparr>m_Type := Some val\<rparr> else message2)
      in messageTagsLoop tags (Message_SetTag key val message3))"

definition messageCommandToMessage :: "MessageCommand \<Rightarrow> Message" where
  "messageCommandToMessage messageCommand =
     (let message = messageTagsLoop (mc_Tags messageCommand)
                      ((NewMessage (mc_Entity messageCommand))\<lparr>m_Message := mc_Message messageCommand\<rparr>)
      in case mc_Timestamp messageCommand of
           None \<Rightarrow> message
         | Some t \<Rightarrow> message\<lparr>m_Timestamp := Some t\<rparr>)"

fun messageCommandsLoop :: "MessageCommand list \<Rightarrow> Message list \<Rightarrow> Message list" where
  "messageCommandsLoop [] messages = messages"
| "messageCommandsLoop (messageCommand # rest) messages =
     messageCommandsLoop rest (messages @ [messageCommandToMessage messageCommand])"

definition messageCommandsToProperties :: "MessageCommand list \<Rightarrow> Message list" where
  "messageCommandsToProperties messageCommands = messageCommandsLoop messageCommands []"

section \<open>The communicator and its environment\<close>

text \<open>
  The counters of \<^verbatim>\<open>httpCounters\<close>: four pairs of \<^verbatim>\<open>uint64\<close>, written here as eight
  fields (\<open>series_sent\<close> is \<^verbatim>\<open>counters.series.sent\<close>).
\<close>

record httpCounters =
  series_sent :: "64 word"
  series_dropped :: "64 word"
  entityTag_sent :: "64 word"
  entityTag_dropped :: "64 word"
  prop_sent :: "64 word"
  prop_dropped :: "64 word"
  messages_sent :: "64 word"
  messages_dropped :: "64 word"

text \<open>\<^verbatim>\<open>&httpCounters{}\<close>: every counter starts at zero.\<close>

definition newCounters :: httpCounters where
  "newCounters = \<lparr>series_sent = 0, series_dropped = 0, entityTag_sent = 0, entityTag_dropped = 0,
                  prop_sent = 0, prop_dropped = 0, messages_sent = 0, messages_dropped = 0\<rparr>"

text \<open>
  A Go \<^verbatim>\<open>error\<close> is modelled by its message. What the code does to the world outside
  its own data is kept in one record: the state of the remote store behind the client, the
  lines handed to \<^verbatim>\<open>glog.Error\<close> (each the list of its arguments), the durations handed
  to \<^verbatim>\<open>time.Sleep\<close>, and the counters of the communicator.
\<close>

type_synonym err = string

datatype logarg = Str string | Err err | Dur nat

record 'w world =
  store :: 'w
  glog :: "logarg list list"
  slept :: "nat list"
  counters :: httpCounters

text \<open>
  Modelled from the spec: the Store Client (\<^verbatim>\<open>http.Client\<close>) is declared outside this
  file. Each write operation takes the wire object and the state of the store and returns
  an error (\<open>None\<close> is \<^verbatim>\<open>nil\<close>) and the new state; \<^verbatim>\<open>Url().Scheme\<close> is a string.
\<close>

record 'w Client =
  Entities_Update :: "WireEntity \<Rightarrow> 'w \<Rightarrow> err option \<times> 'w"
  Entities_Create :: "WireEntity \<Rightarrow> 'w \<Rightarrow> err option \<times> 'w"
  Properties_Insert :: "Property list \<Rightarrow> 'w \<Rightarrow> err option \<times> 'w"
  Messages_Insert :: "Message list \<Rightarrow> 'w \<Rightarrow> err option \<times> 'w"
  Series_Insert :: "Series list \<Rightarrow> 'w \<Rightarrow> err option \<times> 'w"
  Url_Scheme :: string

subsection \<open>Backoff policy\<close>

text \<open>
  Modelled from the spec: \<^verbatim>\<open>ExpBackoff\<close>, \<^verbatim>\<open>NewExpBackoff\<close>, \<^verbatim>\<open>Duration\<close> and
  \<^verbatim>\<open>Reset\<close> are declared outside this file. \<^verbatim>\<open>Duration\<close> returns the current wait
  and grows it geometrically (here by the factor 2) up to the ceiling; \<^verbatim>\<open>Reset\<close> restores
  the initial wait. Durations are in nanoseconds.
\<close>

record ExpBackoff =
  eb_current :: nat
  eb_initial :: nat
  eb_ceiling :: nat

definition NewExpBackoff :: "nat \<Rightarrow> nat \<Rightarrow> ExpBackoff" where
  "NewExpBackoff initial ceil = \<lparr>eb_current = initial, eb_initial = initial, eb_ceiling = ceil\<rparr>"

definition ExpBackoff_Duration :: "ExpBackoff \<Rightarrow> nat \<times> ExpBackoff" where
  "ExpBackoff_Duration b = (eb_current b, b\<lparr>eb_current := min (eb_ceiling b) (2 * eb_current b)\<rparr>)"

definition ExpBackoff_Reset :: "ExpBackoff \<Rightarrow> ExpBackoff" where
  "ExpBackoff_Reset b = b\<lparr>eb_current := eb_initial b\<rparr>"

definition Millisecond :: nat where
  "Millisecond = 1000000"

definition Minute :: nat where
  "Minute = 60000000000"

subsection \<open>\<^verbatim>\<open>tryWhileNotComplete\<close>\<close>

text \<open>
  The loop \<^verbatim>\<open>for firstTime || hasErrors\<close>. The task is a closure over the store; the
  backoff policy is passed by its two methods, so that the executor is modelled for every
  policy. The loop has no bound: the value \<open>None\<close> stands for a call that never returns.
\<close>

partial_function (option) tryWhileNotCompleteLoop ::
  "('w \<Rightarrow> err option \<times> 'w) \<Rightarrow> string \<Rightarrow> ('b \<Rightarrow> nat \<times> 'b) \<Rightarrow> ('b \<Rightarrow> 'b) \<Rightarrow>
   bool \<Rightarrow> bool \<Rightarrow> 'b \<times> 'w world \<Rightarrow> ('b \<times> 'w world) option" where
  "tryWhileNotCompleteLoop task taskName Duration Reset firstTime hasErrors st =
     (if firstTime \<or> hasErrors then
        (case st of (expBackoff, s) \<Rightarrow>
           (case task (store s) of
              (Some err, w) \<Rightarrow>
                (case Duration expBackoff of (waitDuration, expBackoff') \<Rightarrow>
                   tryWhileNotCompleteLoop task taskName Duration Reset False True
                     (expBackoff',
                      s\<lparr>store := w,
                        glog := glog s @ [[Str ''Could not perform '', Str taskName, Str '': '',
                                           Err err, Str ''waiting for '', Dur waitDuration]],
                        slept := slept s @ [waitDuration]\<rparr>))
            | (None, w) \<Rightarrow>
                tryWhileNotCompleteLoop task taskName Duration Reset False False
                  (Reset expBackoff, s\<lparr>store := w\<rparr>)))
      else Some st)"

definition tryWhileNotComplete ::
  "('w \<Rightarrow> err option \<times> 'w) \<Rightarrow> string \<Rightarrow> ('b \<Rightarrow> nat \<times> 'b) \<Rightarrow> ('b \<Rightarrow> 'b) \<Rightarrow>
   'b \<times> 'w world \<Rightarrow> ('b \<times> 'w world) option" where
  "tryWhileNotComplete task taskName Duration Reset st =
     tryWhileNotCompleteLoop task taskName Duration Reset True False st"

subsection \<open>The dispatch loop of \<^verbatim>\<open>NewHttpCommunicator\<close>\<close>





subsection \<open>\<^verbatim>\<open>QueuedSendData\<close> and \<^verbatim>\<open>PriorSendData\<close>\<close>


text \<open>
  \<^verbatim>\<open>PriorSendData\<close> in its four parts. \<^verbatim>\<open>glog.Error\<close> adds one line to the log. For an
  entity, \<^verbatim>\<open>Update\<close> is tried once, \<^verbatim>\<open>Create\<close> once when \<^verbatim>\<open>Update\<close> failed, and a line
  is logged only when \<^verbatim>\<open>Create\<close> failed as well.
\<close>

definition logError :: "logarg list \<Rightarrow> 'w world \<Rightarrow> 'w world" where
  "logError line s = s\<lparr>glog := glog s @ [line]\<rparr>"

fun priorEntities :: "'w Client \<Rightarrow> WireEntity list \<Rightarrow> 'w world \<Rightarrow> 'w world" where
  "priorEntities client [] s = s"
| "priorEntities client (entity # entities) s =
     (case Entities_Update client entity (store s) of
        (None, w) \<Rightarrow> priorEntities client entities (s\<lparr>store := w\<rparr>)
      | (Some _, w) \<Rightarrow>
          (case Entities_Create client entity w of
             (None, w') \<Rightarrow> priorEntities client entities (s\<lparr>store := w'\<rparr>)
           | (Some err, w') \<Rightarrow>
               priorEntities client entities
                 (logError [Str ''Could not prior send entity update: '', Err err] (s\<lparr>store := w'\<rparr>))))"

definition priorProperties :: "'w Client \<Rightarrow> PropertyCommand list \<Rightarrow> 'w world \<Rightarrow> 'w world" where
  "priorProperties client propertyCommands s =
     (if length propertyCommands > 0 then
        (case Properties_Insert client (propertyCommandsToProperties propertyCommands) (store s) of
           (None, w) \<Rightarrow> s\<lparr>store := w\<rparr>
         | (Some err, w) \<Rightarrow> logError [Str ''Could not prior send property: '', Err err] (s\<lparr>store := w\<rparr>))
      else s)"

definition priorSeries :: "'w Client \<Rightarrow> SeriesCommand list \<Rightarrow> 'w world \<Rightarrow> error option \<times> 'w world" where
  "priorSeries client seriesCommands s =
     (if length seriesCommands > 0 then
        (case seriesCommandsToSeries seriesCommands of
           Inl e \<Rightarrow> (Some e, s)
         | Inr series \<Rightarrow>
             (case Series_Insert client series (store s) of
                (None, w) \<Rightarrow> (None, s\<lparr>store := w\<rparr>)
              | (Some err, w) \<Rightarrow>
                  (None, logError [Str ''Could not prior send series: '', Err err] (s\<lparr>store := w\<rparr>))))
      else (None, s))"

definition priorMessages :: "'w Client \<Rightarrow> MessageCommand list \<Rightarrow> 'w world \<Rightarrow> 'w world" where
  "priorMessages client messageCommands s =
     (if length messageCommands > 0 then
        (case Messages_Insert client (messageCommandsToProperties messageCommands) (store s) of
           (None, w) \<Rightarrow> s\<lparr>store := w\<rparr>
         | (Some err, w) \<Rightarrow> logError [Str ''Could not prior send message: '', Err err] (s\<lparr>store := w\<rparr>))
      else s)"

text \<open>
  \<^verbatim>\<open>PriorSendData\<close> returns nothing; the model returns the world the call leaves and, when
  the series transformer panicked, the panic, which ends the call before the messages.
\<close>

definition PriorSendData ::
  "'w Client \<Rightarrow> SeriesCommand list \<Rightarrow> EntityTagCommand list \<Rightarrow> PropertyCommand list \<Rightarrow>
   MessageCommand list \<Rightarrow> 'w world \<Rightarrow> error option \<times> 'w world" where
  "PriorSendData client seriesCommands entityTagCommands propertyCommands messageCommands s =
     (let s1 = priorEntities client (entityTagCommandsToEntities entityTagCommands) s;
          s2 = priorProperties client propertyCommands s1
      in case priorSeries client seriesCommands s2 of
           (Some e, s3) \<Rightarrow> (Some e, s3)
         | (None, s3) \<Rightarrow> (None, priorMessages client messageCommands s3))"


subsection \<open>\<^verbatim>\<open>SelfMetricValues\<close>\<close>

text \<open>
  Modelled from the spec: \<^verbatim>\<open>metricValue\<close> is declared outside this file; it has a
  name, tags and a value. \<^verbatim>\<open>net.Int64\<close> of a \<^verbatim>\<open>uint64\<close> reads the same 64 bits as a
  signed number.
\<close>

record metricValue =
  mv_name :: string
  mv_tags :: "string gomap"
  mv_value :: int

definition metric :: "'w Client \<Rightarrow> string \<Rightarrow> 64 word \<Rightarrow> metricValue" where
  "metric client name counter =
     \<lparr>mv_name = name, mv_tags = [(''transport'', Url_Scheme client)], mv_value = sint counter\<rparr>"

definition SelfMetricValues :: "'w Client \<Rightarrow> 'w world \<Rightarrow> metricValue list" where
  "SelfMetricValues client s =
     [metric client ''series-commands.sent'' (series_sent (counters s)),
      metric client ''series-commands.dropped'' (series_dropped (counters s)),
      metric client ''message-commands.sent'' (messages_sent (counters s)),
      metric client ''message-commands.dropped'' (messages_dropped (counters s)),
      metric client ''property-commands.sent'' (prop_sent (counters s)),
      metric client ''property-commands.dropped'' (prop_dropped (counters s)),
      metric client ''entitytag-commands.sent'' (entityTag_sent (counters s)),
      metric client ''entitytag-commands.dropped'' (entityTag_dropped (counters s))]"

subsection \<open>Reachable states\<close>


section \<open>Vocabulary of the properties\<close>

text \<open>Every command of a batch or chunk carries a timestamp.\<close>

definition allTimestamped :: "SeriesCommand list \<Rightarrow> bool" where
  "allTimestamped cs = (\<forall>c \<in> set cs. sc_Timestamp c \<noteq> None)"

text \<open>The metric mapping of every command is a Go map: no key occurs twice.\<close>

definition metricMaps :: "SeriesCommand list \<Rightarrow> bool" where
  "metricMaps cs = (\<forall>c \<in> set cs. wf_gomap (sc_Metrics c))"

text \<open>The metric mapping of a command contains a metric name.\<close>

definition hasMetric :: "string \<Rightarrow> SeriesCommand \<Rightarrow> bool" where
  "hasMetric k c = (k \<in> gokeys (sc_Metrics c))"

text \<open>The distinct metric names across a batch, each once.\<close>

definition metricNames :: "SeriesCommand list \<Rightarrow> string list" where
  "metricNames cs = remdups (concat (map (\<lambda>c. map fst (sc_Metrics c)) cs))"

text \<open>The sample a command contributes to a metric: its timestamp with its value for the metric.\<close>

definition sampleOf :: "SeriesCommand \<Rightarrow> string \<Rightarrow> Sample option" where
  "sampleOf c k =
     (case sc_Timestamp c of
        None \<Rightarrow> None
      | Some t \<Rightarrow> (case map_of (sc_Metrics c) k of None \<Rightarrow> None | Some v \<Rightarrow> Some \<lparr>T = t, V = v\<rparr>))"

text \<open>The union of the tags of all commands that contain a metric name, as a set of entries.\<close>

definition tagUnion :: "SeriesCommand list \<Rightarrow> string \<Rightarrow> (string \<times> string) set" where
  "tagUnion cs k = (\<Union>c \<in> set (filter (hasMetric k) cs). set (sc_Tags c))"

text \<open>
  The samples that the entries of a metric mapping give to one metric at one timestamp,
  those of a command, and those of a list of commands from front to back.
\<close>

definition samplesAt :: "Millis \<Rightarrow> string \<Rightarrow> Number gomap \<Rightarrow> Sample list" where
  "samplesAt t k ms = map (\<lambda>p. \<lparr>T = t, V = snd p\<rparr>) (filter (\<lambda>p. fst p = k) ms)"

definition metricSamples :: "SeriesCommand \<Rightarrow> string \<Rightarrow> Sample list" where
  "metricSamples c k =
     (case sc_Timestamp c of None \<Rightarrow> [] | Some t \<Rightarrow> samplesAt t k (sc_Metrics c))"

definition chunkSamples :: "SeriesCommand list \<Rightarrow> string \<Rightarrow> Sample list" where
  "chunkSamples cs k = concat (map (\<lambda>c. metricSamples c k) cs)"

definition seriesEntry :: "SeriesCommand \<Rightarrow> string \<Rightarrow> Sample list \<Rightarrow> Series" where
  "seriesEntry c k d = \<lparr>Entity = sc_Entity c, Metric = k, Tags = sc_Tags c, Data = d\<rparr>"

text \<open>Every entry of \<^verbatim>\<open>seriesMap\<close> is stored under its own metric name.\<close>

definition keyedByMetric :: "Series gomap \<Rightarrow> bool" where
  "keyedByMetric m = (\<forall>p \<in> set m. Metric (snd p) = fst p)"

text \<open>
  The store after \<open>n\<close> invocations of a task, and whether invocation \<open>i + 1\<close> of the task
  fails when the task is invoked again and again from the store \<open>w\<close>.
\<close>

definition taskStore :: "('w \<Rightarrow> err option \<times> 'w) \<Rightarrow> 'w \<Rightarrow> nat \<Rightarrow> 'w" where
  "taskStore task w n = ((\<lambda>w. snd (task w)) ^^ n) w"

definition failsAt :: "('w \<Rightarrow> err option \<times> 'w) \<Rightarrow> 'w \<Rightarrow> nat \<Rightarrow> bool" where
  "failsAt task w i = (fst (task (taskStore task w i)) \<noteq> None)"

text \<open>The first \<open>n\<close> successive values of a backoff policy, and its state after them.\<close>

fun backoffDurations :: "('b \<Rightarrow> nat \<times> 'b) \<Rightarrow> 'b \<Rightarrow> nat \<Rightarrow> nat list" where
  "backoffDurations Duration b 0 = []"
| "backoffDurations Duration b (Suc n) = fst (Duration b) # backoffDurations Duration (snd (Duration b)) n"

fun backoffAfter :: "('b \<Rightarrow> nat \<times> 'b) \<Rightarrow> 'b \<Rightarrow> nat \<Rightarrow> 'b" where
  "backoffAfter Duration b 0 = b"
| "backoffAfter Duration b (Suc n) = backoffAfter Duration (snd (Duration b)) n"

text \<open>The dedicated wire field of a reserved tag key of a message.\<close>

definition dedicatedField :: "string \<Rightarrow> Message \<Rightarrow> string option" where
  "dedicatedField key m =
     (if key = ''severity'' then m_Severity m
      else if key = ''source'' then m_Source m
      else if key = ''type'' then m_Type m
      else None)"




section \<open>Example inputs\<close>

definition cpuAt1 :: SeriesCommand where
  "cpuAt1 = \<lparr>sc_Timestamp = Some 1000, sc_Entity = ''host1'',
             sc_Metrics = [(''cpu'', 10)], sc_Tags = [(''dc'', ''east'')]\<rparr>"

definition cpuMemAt2 :: SeriesCommand where
  "cpuMemAt2 = \<lparr>sc_Timestamp = Some 2000, sc_Entity = ''host1'',
                sc_Metrics = [(''cpu'', 20), (''mem'', 5)], sc_Tags = [(''rack'', ''7'')]\<rparr>"

definition untimedEmpty :: SeriesCommand where
  "untimedEmpty = \<lparr>sc_Timestamp = None, sc_Entity = ''host1'', sc_Metrics = [], sc_Tags = []\<rparr>"

definition warningMessage :: MessageCommand where
  "warningMessage = \<lparr>mc_Entity = ''host1'', mc_Message = ''disk almost full'',
                     mc_Tags = [(''severity'', ''WARNING''), (''zone'', ''a'')], mc_Timestamp = None\<rparr>"

definition host1Tags :: EntityTagCommand where
  "host1Tags = \<lparr>etc_Entity = ''host1'', etc_Tags = [(''os'', ''linux'')]\<rparr>"

text \<open>
  A store that records the calls it receives. Its client fails every \<^verbatim>\<open>Update\<close> and
  accepts every other call.
\<close>

datatype call =
    UpdateCall WireEntity
  | CreateCall WireEntity
  | PropertiesCall "Property list"
  | MessagesCall "Message list"
  | SeriesCall "Series list"

definition recordingClient :: "call list Client" where
  "recordingClient =
     \<lparr>Entities_Update = (\<lambda>e w. (Some ''no such entity'', w @ [UpdateCall e])),
      Entities_Create = (\<lambda>e w. (None, w @ [CreateCall e])),
      Properties_Insert = (\<lambda>ps w. (None, w @ [PropertiesCall ps])),
      Messages_Insert = (\<lambda>ms w. (None, w @ [MessagesCall ms])),
      Series_Insert = (\<lambda>ss w. (None, w @ [SeriesCall ss])),
      Url_Scheme = ''https''\<rparr>"

definition newWorld :: "'w \<Rightarrow> 'w world" where
  "newWorld w = \<lparr>store = w, glog = [], slept = [], counters = newCounters\<rparr>"

text \<open>
  Two tasks over a store that counts their invocations: one fails twice and then succeeds,
  one fails every time.
\<close>

definition failsTwice :: "nat \<Rightarrow> err option \<times> nat" where
  "failsTwice n = (if n < 2 then Some ''unavailable'' else None, Suc n)"

definition alwaysFails :: "nat \<Rightarrow> err option \<times> nat" where
  "alwaysFails n = (Some ''unavailable'', Suc n)"


section \<open>Properties of the series transformers\<close>

subsection \<open>The loops\<close>

lemmas example_defs = cpuAt1_def cpuMemAt2_def untimedEmpty_def

lemma chunkDrainLoop_Nil: "chunkDrainLoop [] m = Inr (m, [])"
  by (simp add: chunkDrainLoop.simps Front_def)

lemma chunkDrainLoop_Cons: "chunkDrainLoop (c # cs) m =
  (case chunkMetricsLoop c (sc_Metrics c) m of Inl e \<Rightarrow> Inl e | Inr m' \<Rightarrow> chunkDrainLoop cs m')"
  by (subst chunkDrainLoop.simps) (simp add: Front_def Remove_front_def split: sum.splits)

lemma chunkMetricsLoop_returns:
  "sc_Timestamp c = Some t \<Longrightarrow> \<exists>m'. chunkMetricsLoop c ms m = Inr m'"
  by (induction ms arbitrary: m) (auto simp: Let_def)

lemma map_fst_map_entry: "map fst (AList.map_entry k f al) = map fst al"
  by (induction al) auto

lemma chunkMetricsLoop_keys:
  "chunkMetricsLoop c ms m = Inr m' \<Longrightarrow> set (map fst m') = set (map fst m) \<union> fst ` set ms"
proof (induction ms arbitrary: m)
  case Nil
  then show ?case by simp
next
  case (Cons p ms)
  obtain key val where p: "p = (key, val)" by (cases p)
  from Cons.prems obtain t where t: "sc_Timestamp c = Some t"
    by (auto simp: p Let_def split: option.splits)
  show ?case
  proof (cases "map_of m key")
    case None
    with Cons.prems t p have "chunkMetricsLoop c ms
        (AList.map_entry key (\<lambda>s. s\<lparr>Data := Data s @ [\<lparr>T = t, V = val\<rparr>]\<rparr>)
           (AList.update key \<lparr>Entity = sc_Entity c, Metric = key, Tags = sc_Tags c, Data = []\<rparr> m)) = Inr m'"
      by simp
    from Cons.IH [OF this] show ?thesis
      by (auto simp: p map_fst_map_entry AList.dom_update)
  next
    case (Some s)
    with Cons.prems t p have "chunkMetricsLoop c ms
        (AList.map_entry key (\<lambda>s. s\<lparr>Data := Data s @ [\<lparr>T = t, V = val\<rparr>]\<rparr>) m) = Inr m'"
      by simp
    moreover from Some have "key \<in> fst ` set m"
      by (metis map_of_eq_None_iff option.distinct(1))
    ultimately show ?thesis using Cons.IH [of "AList.map_entry key (\<lambda>s. s\<lparr>Data := Data s @ [\<lparr>T = t, V = val\<rparr>]\<rparr>) m"]
      by (auto simp: p map_fst_map_entry)
  qed
qed

lemma chunkMetricsLoop_distinct:
  "chunkMetricsLoop c ms m = Inr m' \<Longrightarrow> distinct (map fst m) \<Longrightarrow> distinct (map fst m')"
proof (induction ms arbitrary: m)
  case Nil
  then show ?case by simp
next
  case (Cons p ms)
  obtain key val where p: "p = (key, val)" by (cases p)
  from Cons.prems obtain t where t: "sc_Timestamp c = Some t"
    by (auto simp: p Let_def split: option.splits)
  show ?case
    using Cons.prems t
    by (auto simp: p map_fst_map_entry AList.distinct_update AList.distinct_map_entry
        split: option.splits intro!: Cons.IH)
qed

lemma samplesAt_Nil: "samplesAt t k [] = []"
  by (simp add: samplesAt_def)

lemma samplesAt_Cons:
  "samplesAt t k ((key, val) # ms) =
     (if key = k then \<lparr>T = t, V = val\<rparr> # samplesAt t k ms else samplesAt t k ms)"
  by (simp add: samplesAt_def)

lemma chunkMetricsLoop_map_of:
  "sc_Timestamp c = Some t \<Longrightarrow> chunkMetricsLoop c ms m = Inr m' \<Longrightarrow>
   map_of m' k =
     (case map_of m k of
        Some s \<Rightarrow> Some (s\<lparr>Data := Data s @ samplesAt t k ms\<rparr>)
      | None \<Rightarrow> if k \<in> fst ` set ms then Some (seriesEntry c k (samplesAt t k ms)) else None)"
proof (induction ms arbitrary: m)
  case Nil
  then show ?case by (simp add: samplesAt_Nil split: option.splits)
next
  case (Cons p ms)
  obtain key val where p: "p = (key, val)" by (cases p)
  define m1 where "m1 = (case map_of m key of
           None \<Rightarrow> AList.update key \<lparr>Entity = sc_Entity c, Metric = key, Tags = sc_Tags c, Data = []\<rparr> m
         | Some _ \<Rightarrow> m)"
  define m2 where "m2 = AList.map_entry key (\<lambda>s. s\<lparr>Data := Data s @ [\<lparr>T = t, V = val\<rparr>]\<rparr>) m1"
  from Cons.prems have run: "chunkMetricsLoop c ms m2 = Inr m'"
    by (simp add: p m1_def m2_def)
  note IH = Cons.IH [OF Cons.prems(1) run]
  have m2: "map_of m2 k =
     (if k = key then
        (case map_of m key of
           Some s \<Rightarrow> Some (s\<lparr>Data := Data s @ [\<lparr>T = t, V = val\<rparr>]\<rparr>)
         | None \<Rightarrow> Some (seriesEntry c key [\<lparr>T = t, V = val\<rparr>]))
      else map_of m k)"
    by (auto simp: m2_def m1_def AList.map_of_map_entry AList.update_conv' seriesEntry_def
        split: option.splits)
  show ?case
    unfolding IH m2 p
    by (auto simp: samplesAt_Cons seriesEntry_def split: option.splits)
qed

lemma keyedByMetric_update:
  "keyedByMetric al \<Longrightarrow> Metric v = key \<Longrightarrow> keyedByMetric (AList.update key v al)"
  by (induction al) (auto simp: keyedByMetric_def)

lemma keyedByMetric_map_entry:
  "keyedByMetric al \<Longrightarrow> (\<And>s. Metric (f s) = Metric s) \<Longrightarrow>
   keyedByMetric (AList.map_entry key f al)"
  by (induction al) (auto simp: keyedByMetric_def)

lemma chunkMetricsLoop_keyed:
  "chunkMetricsLoop c ms m = Inr m' \<Longrightarrow> keyedByMetric m \<Longrightarrow> keyedByMetric m'"
proof (induction ms arbitrary: m)
  case Nil
  then show ?case by simp
next
  case (Cons p ms)
  obtain key val where p: "p = (key, val)" by (cases p)
  from Cons.prems obtain t where t: "sc_Timestamp c = Some t"
    by (auto simp: p Let_def split: option.splits)
  define m1 where "m1 = (case map_of m key of
           None \<Rightarrow> AList.update key \<lparr>Entity = sc_Entity c, Metric = key, Tags = sc_Tags c, Data = []\<rparr> m
         | Some _ \<Rightarrow> m)"
  define m2 where "m2 = AList.map_entry key (\<lambda>s. s\<lparr>Data := Data s @ [\<lparr>T = t, V = val\<rparr>]\<rparr>) m1"
  from Cons.prems t have run: "chunkMetricsLoop c ms m2 = Inr m'"
    by (simp add: p m1_def m2_def)
  have "keyedByMetric m1"
    using Cons.prems(2) by (auto simp: m1_def keyedByMetric_update split: option.splits)
  then have "keyedByMetric m2"
    unfolding m2_def by (rule keyedByMetric_map_entry) simp
  with run show ?case by (rule Cons.IH)
qed

lemma keyedByMetric_filter:
  "keyedByMetric m \<Longrightarrow> distinct (map fst m) \<Longrightarrow> map_of m k = Some s \<Longrightarrow>
   filter (\<lambda>x. Metric x = k) (map snd m) = [s]"
proof (induction m)
  case Nil
  then show ?case by simp
next
  case (Cons p m)
  obtain k' s' where p: "p = (k', s')" by (cases p)
  from Cons.prems(1) have keyed: "keyedByMetric m" and s': "Metric s' = k'"
    by (auto simp: keyedByMetric_def p)
  show ?case
  proof (cases "k' = k")
    case True
    with Cons.prems p have "s' = s" and "k \<notin> fst ` set m" by auto
    with keyed have "filter (\<lambda>x. Metric x = k) (map snd m) = []"
      by (auto simp: keyedByMetric_def filter_empty_conv)
    with True s' \<open>s' = s\<close> show ?thesis by (simp add: p)
  next
    case False
    with Cons.prems p have "map_of m k = Some s" and "distinct (map fst m)" by auto
    from Cons.IH [OF keyed this(2) this(1)] False s' show ?thesis by (simp add: p)
  qed
qed

lemma chunkDrainLoop_returns:
  "allTimestamped ch \<Longrightarrow> \<exists>m'. chunkDrainLoop ch m = Inr (m', [])"
proof (induction ch arbitrary: m)
  case Nil
  then show ?case by (simp add: chunkDrainLoop_Nil)
next
  case (Cons c ch)
  then obtain t where "sc_Timestamp c = Some t" by (auto simp: allTimestamped_def)
  then obtain m1 where "chunkMetricsLoop c (sc_Metrics c) m = Inr m1"
    using chunkMetricsLoop_returns by blast
  moreover from Cons.prems have "allTimestamped ch" by (simp add: allTimestamped_def)
  ultimately show ?case using Cons.IH [of m1] by (simp add: chunkDrainLoop_Cons)
qed

lemma chunkDrainLoop_ConsE:
  assumes "chunkDrainLoop (c # ch) m = Inr r"
  obtains m1 where "chunkMetricsLoop c (sc_Metrics c) m = Inr m1" and "chunkDrainLoop ch m1 = Inr r"
  using assms by (auto simp: chunkDrainLoop_Cons split: sum.splits)

lemma chunkDrainLoop_keys:
  "chunkDrainLoop ch m = Inr (m', r) \<Longrightarrow>
   set (map fst m') = set (map fst m) \<union> (\<Union>c \<in> set ch. gokeys (sc_Metrics c))"
proof (induction ch arbitrary: m)
  case Nil
  then show ?case by (simp add: chunkDrainLoop_Nil)
next
  case (Cons c ch)
  from Cons.prems obtain m1 where 1: "chunkMetricsLoop c (sc_Metrics c) m = Inr m1"
    and 2: "chunkDrainLoop ch m1 = Inr (m', r)" by (rule chunkDrainLoop_ConsE)
  from Cons.IH [OF 2] chunkMetricsLoop_keys [OF 1] show ?case
    by (auto simp: gokeys_def)
qed

lemma chunkDrainLoop_distinct:
  "chunkDrainLoop ch m = Inr (m', r) \<Longrightarrow> distinct (map fst m) \<Longrightarrow> distinct (map fst m')"
proof (induction ch arbitrary: m)
  case Nil
  then show ?case by (simp add: chunkDrainLoop_Nil)
next
  case (Cons c ch)
  from Cons.prems(1) obtain m1 where 1: "chunkMetricsLoop c (sc_Metrics c) m = Inr m1"
    and 2: "chunkDrainLoop ch m1 = Inr (m', r)" by (rule chunkDrainLoop_ConsE)
  from chunkMetricsLoop_distinct [OF 1 Cons.prems(2)] show ?case by (rule Cons.IH [OF 2])
qed

lemma chunkDrainLoop_keyed:
  "chunkDrainLoop ch m = Inr (m', r) \<Longrightarrow> keyedByMetric m \<Longrightarrow> keyedByMetric m'"
proof (induction ch arbitrary: m)
  case Nil
  then show ?case by (simp add: chunkDrainLoop_Nil)
next
  case (Cons c ch)
  from Cons.prems(1) obtain m1 where 1: "chunkMetricsLoop c (sc_Metrics c) m = Inr m1"
    and 2: "chunkDrainLoop ch m1 = Inr (m', r)" by (rule chunkDrainLoop_ConsE)
  from chunkMetricsLoop_keyed [OF 1 Cons.prems(2)] show ?case by (rule Cons.IH [OF 2])
qed

lemma samplesAt_absent: "k \<notin> fst ` set ms \<Longrightarrow> samplesAt t k ms = []"
  by (auto simp: samplesAt_def filter_empty_conv)

lemma chunkDrainLoop_map_of:
  "allTimestamped ch \<Longrightarrow> chunkDrainLoop ch m = Inr (m', r) \<Longrightarrow>
   map_of m' k =
     (case map_of m k of
        Some s \<Rightarrow> Some (s\<lparr>Data := Data s @ chunkSamples ch k\<rparr>)
      | None \<Rightarrow> (case find (hasMetric k) ch of
                   None \<Rightarrow> None
                 | Some c0 \<Rightarrow> Some (seriesEntry c0 k (chunkSamples ch k))))"
proof (induction ch arbitrary: m)
  case Nil
  then show ?case by (simp add: chunkDrainLoop_Nil chunkSamples_def split: option.splits)
next
  case (Cons c ch)
  from Cons.prems(2) obtain m1 where 1: "chunkMetricsLoop c (sc_Metrics c) m = Inr m1"
    and 2: "chunkDrainLoop ch m1 = Inr (m', r)" by (rule chunkDrainLoop_ConsE)
  from Cons.prems(1) obtain t where t: "sc_Timestamp c = Some t" and rest: "allTimestamped ch"
    by (auto simp: allTimestamped_def)
  note inner = chunkMetricsLoop_map_of [OF t 1, of k]
  note outer = Cons.IH [OF rest 2]
  have cs: "chunkSamples (c # ch) k = samplesAt t k (sc_Metrics c) @ chunkSamples ch k"
    by (simp add: chunkSamples_def metricSamples_def t)
  show ?case
  proof (cases "map_of m k")
    case (Some s)
    with inner outer cs show ?thesis by simp
  next
    case None
    show ?thesis
    proof (cases "hasMetric k c")
      case True
      with None inner outer cs show ?thesis
        by (simp add: hasMetric_def gokeys_def seriesEntry_def)
    next
      case False
      then have "samplesAt t k (sc_Metrics c) = []"
        by (simp add: hasMetric_def gokeys_def samplesAt_absent)
      with cs have cs': "chunkSamples (c # ch) k = chunkSamples ch k" by simp
      from False None inner have "map_of m1 k = None"
        by (simp add: hasMetric_def gokeys_def)
      with outer False None show ?thesis
        by (simp add: cs' split: option.splits)
    qed
  qed
qed

lemma length_appendSeries:
  "length (appendSeries c t ms series) = length series + length ms"
  by (induction ms arbitrary: series) auto

lemma seriesCommandsLoop_length:
  "allTimestamped cs \<Longrightarrow>
   \<exists>ss. seriesCommandsLoop cs series = Inr ss \<and>
        length ss = length series + sum_list (map (\<lambda>c. length (sc_Metrics c)) cs)"
proof (induction cs arbitrary: series)
  case Nil
  then show ?case by simp
next
  case (Cons c cs)
  then obtain t where t: "sc_Timestamp c = Some t" and rest: "allTimestamped cs"
    by (auto simp: allTimestamped_def)
  from Cons.IH [OF rest, of "appendSeries c t (sc_Metrics c) series"] t
  show ?case by (auto simp: length_appendSeries)
qed

lemma seriesCommandsLoop_nil:
  "\<not> allTimestamped cs \<Longrightarrow> seriesCommandsLoop cs series = Inl NilTimestamp"
  by (induction cs arbitrary: series) (auto simp: allTimestamped_def split: option.splits)

lemma seriesCommandsChunkToSeries_drain:
  assumes "allTimestamped ch"
  obtains m' where "chunkDrainLoop ch [] = Inr (m', [])"
    and "seriesCommandsChunkToSeries ch = Inr (map snd m', [])"
proof -
  from chunkDrainLoop_returns [OF assms] obtain m' where d: "chunkDrainLoop ch [] = Inr (m', [])"
    by blast
  have "seriesCommandsChunkToSeries ch = Inr (map snd m', [])"
  proof (cases ch)
    case Nil
    with d show ?thesis by (simp add: seriesCommandsChunkToSeries_def Len_def chunkDrainLoop_Nil)
  next
    case (Cons c cs)
    with d show ?thesis by (simp add: seriesCommandsChunkToSeries_def Len_def)
  qed
  with d that show ?thesis by blast
qed

lemma metricNames_card:
  "length (metricNames cs) = card (\<Union>c \<in> set cs. gokeys (sc_Metrics c))"
proof -
  have "set (concat (map (\<lambda>c. map fst (sc_Metrics c)) cs)) = (\<Union>c \<in> set cs. gokeys (sc_Metrics c))"
    by (auto simp: gokeys_def)
  then show ?thesis by (simp add: metricNames_def length_remdups_card_conv)
qed

lemma find_hasMetric:
  "(\<exists>c \<in> set ch. hasMetric k c) \<Longrightarrow> \<exists>c0. find (hasMetric k) ch = Some c0"
  by (cases "find (hasMetric k) ch") (auto simp: find_None_iff)

lemma chunk_series_for_metric:
  assumes ts: "allTimestamped ch" and f: "find (hasMetric k) ch = Some c0"
  obtains series where "seriesCommandsChunkToSeries ch = Inr (series, [])"
    and "filter (\<lambda>x. Metric x = k) series = [seriesEntry c0 k (chunkSamples ch k)]"
proof -
  from ts obtain m' where d: "chunkDrainLoop ch [] = Inr (m', [])"
    and r: "seriesCommandsChunkToSeries ch = Inr (map snd m', [])"
    by (rule seriesCommandsChunkToSeries_drain)
  from chunkDrainLoop_map_of [OF ts d, of k] f
  have "map_of m' k = Some (seriesEntry c0 k (chunkSamples ch k))" by simp
  moreover from chunkDrainLoop_distinct [OF d] have "distinct (map fst m')" by simp
  moreover from chunkDrainLoop_keyed [OF d] have "keyedByMetric m'"
    by (simp add: keyedByMetric_def)
  ultimately have "filter (\<lambda>x. Metric x = k) (map snd m') = [seriesEntry c0 k (chunkSamples ch k)]"
    by (simp add: keyedByMetric_filter)
  with r show ?thesis by (rule that)
qed

lemma samplesAt_wf:
  "wf_gomap ms \<Longrightarrow>
   samplesAt t k ms = (case map_of ms k of None \<Rightarrow> [] | Some v \<Rightarrow> [\<lparr>T = t, V = v\<rparr>])"
proof (induction ms)
  case Nil
  then show ?case by (simp add: samplesAt_Nil)
next
  case (Cons p ms)
  obtain key val where p: "p = (key, val)" by (cases p)
  from Cons.prems have wf: "wf_gomap ms" and fresh: "key \<notin> fst ` set ms"
    by (auto simp: wf_gomap_def p)
  show ?case
  proof (cases "key = k")
    case True
    with fresh have "samplesAt t k ms = []" by (simp add: samplesAt_absent)
    with True show ?thesis by (simp add: p samplesAt_Cons)
  next
    case False
    with Cons.IH [OF wf] show ?thesis by (simp add: p samplesAt_Cons)
  qed
qed

lemma chunkSamples_wf:
  "allTimestamped ch \<Longrightarrow> \<forall>c \<in> set ch. wf_gomap (sc_Metrics c) \<Longrightarrow>
   chunkSamples ch k = List.map_filter (\<lambda>c. sampleOf c k) ch \<and>
   length (chunkSamples ch k) = length (filter (hasMetric k) ch)"
proof (induction ch)
  case Nil
  then show ?case by (simp add: chunkSamples_def List.map_filter_simps)
next
  case (Cons c ch)
  then obtain t where t: "sc_Timestamp c = Some t" and rest: "allTimestamped ch"
    by (auto simp: allTimestamped_def)
  from Cons.prems have wf: "wf_gomap (sc_Metrics c)" and wfs: "\<forall>c \<in> set ch. wf_gomap (sc_Metrics c)"
    by simp_all
  have cs: "chunkSamples (c # ch) k = samplesAt t k (sc_Metrics c) @ chunkSamples ch k"
    by (simp add: chunkSamples_def metricSamples_def t)
  have has: "hasMetric k c \<longleftrightarrow> map_of (sc_Metrics c) k \<noteq> None"
    by (simp add: hasMetric_def gokeys_def map_of_eq_None_iff)
  from Cons.IH [OF rest wfs] show ?case
    by (auto simp: cs samplesAt_wf [OF wf] has sampleOf_def t List.map_filter_simps
        split: option.splits)
qed

lemma chunkSamples_covers:
  "c \<in> set ch \<Longrightarrow> sc_Timestamp c = Some t \<Longrightarrow> (k, v) \<in> set (sc_Metrics c) \<Longrightarrow>
   \<lparr>T = t, V = v\<rparr> \<in> set (chunkSamples ch k)"
  by (force simp: chunkSamples_def metricSamples_def samplesAt_def)

subsection \<open>Number of wire objects\<close>

text \<open>
  Claim C1, as amended. For every batch whose commands all carry a timestamp, both
  transformers return. The chunked transformer returns as many wire Series objects as there
  are distinct metric names across the batch. The non-chunked transformer returns one wire
  Series object for every entry of every metric mapping, that is, as many as the sizes of the
  metric mappings add up to.
\<close>

theorem series_count:
  assumes "allTimestamped cs"
  shows "(\<exists>ss. seriesCommandsToSeries cs = Inr ss \<and>
              length ss = sum_list (map (\<lambda>c. length (sc_Metrics c)) cs)) \<and>
         (\<exists>ss ch'. seriesCommandsChunkToSeries cs = Inr (ss, ch') \<and>
              length ss = length (metricNames cs))"
proof
  from seriesCommandsLoop_length [OF assms, of "[]"]
  show "\<exists>ss. seriesCommandsToSeries cs = Inr ss \<and>
              length ss = sum_list (map (\<lambda>c. length (sc_Metrics c)) cs)"
    by (simp add: seriesCommandsToSeries_def)
next
  from assms obtain m' where d: "chunkDrainLoop cs [] = Inr (m', [])"
    and r: "seriesCommandsChunkToSeries cs = Inr (map snd m', [])"
    by (rule seriesCommandsChunkToSeries_drain)
  from chunkDrainLoop_distinct [OF d] have "distinct (map fst m')" by simp
  then have "length m' = card (set (map fst m'))"
    by (metis distinct_card length_map)
  also from chunkDrainLoop_keys [OF d]
  have "set (map fst m') = (\<Union>c \<in> set cs. gokeys (sc_Metrics c))" by simp
  finally have "length (map snd m') = length (metricNames cs)"
    by (simp add: metricNames_card)
  with r show "\<exists>ss ch'. seriesCommandsChunkToSeries cs = Inr (ss, ch') \<and>
              length ss = length (metricNames cs)" by blast
qed

text \<open>
  The claim as stated fails for \<^verbatim>\<open>seriesCommandsToSeries\<close>: two commands with populated
  metric mappings and timestamps that share the metric \<^verbatim>\<open>cpu\<close> give three wire objects
  for two distinct metric names.
\<close>

theorem series_count_counterexample:
  "seriesCommandsToSeries [cpuAt1, cpuMemAt2] =
     Inr [\<lparr>Entity = ''host1'', Metric = ''cpu'', Tags = [(''dc'', ''east'')], Data = [\<lparr>T = 1000, V = 10\<rparr>]\<rparr>,
          \<lparr>Entity = ''host1'', Metric = ''cpu'', Tags = [(''rack'', ''7'')], Data = [\<lparr>T = 2000, V = 20\<rparr>]\<rparr>,
          \<lparr>Entity = ''host1'', Metric = ''mem'', Tags = [(''rack'', ''7'')], Data = [\<lparr>T = 2000, V = 5\<rparr>]\<rparr>]
   \<and> metricNames [cpuAt1, cpuMemAt2] = [''cpu'', ''mem'']
   \<and> sc_Metrics cpuAt1 \<noteq> [] \<and> sc_Metrics cpuMemAt2 \<noteq> []
   \<and> sc_Timestamp cpuAt1 \<noteq> None \<and> sc_Timestamp cpuMemAt2 \<noteq> None"
  by (simp add: seriesCommandsToSeries_def metricNames_def example_defs)

theorem series_count_witness:
  "allTimestamped [cpuAt1, cpuMemAt2] \<and>
   (\<exists>ss. seriesCommandsToSeries [cpuAt1, cpuMemAt2] = Inr ss \<and> length ss = 3) \<and>
   (\<exists>ss ch'. seriesCommandsChunkToSeries [cpuAt1, cpuMemAt2] = Inr (ss, ch') \<and> length ss = 2)"
proof -
  have h: "allTimestamped [cpuAt1, cpuMemAt2]"
    by (simp add: allTimestamped_def example_defs)
  have "sum_list (map (\<lambda>c. length (sc_Metrics c)) [cpuAt1, cpuMemAt2]) = 3"
    and "length (metricNames [cpuAt1, cpuMemAt2]) = 2"
    by (simp_all add: metricNames_def example_defs)
  with h series_count [OF h] show ?thesis by simp
qed

subsection \<open>Tags of a grouped wire object\<close>

text \<open>
  Claim C2, as amended. For every chunk whose commands all carry a timestamp, the chunked
  transformation emits exactly one wire Series object for a metric name that occurs in the
  chunk, and that object carries the tags and the entity of the first command, in drain
  order, that contains the metric name.
\<close>

theorem chunk_series_tags_of_first:
  assumes "allTimestamped ch" and "find (hasMetric k) ch = Some c0"
  shows "\<exists>series ch' s. seriesCommandsChunkToSeries ch = Inr (series, ch') \<and>
           filter (\<lambda>x. Metric x = k) series = [s] \<and>
           Tags s = sc_Tags c0 \<and> Entity s = sc_Entity c0"
proof -
  from assms obtain series where "seriesCommandsChunkToSeries ch = Inr (series, [])"
    and "filter (\<lambda>x. Metric x = k) series = [seriesEntry c0 k (chunkSamples ch k)]"
    by (rule chunk_series_for_metric)
  then show ?thesis by (simp add: seriesEntry_def)
qed

text \<open>
  The claim as stated fails: of two commands that contain \<^verbatim>\<open>cpu\<close>, only the tags of the
  first reach the wire object, while the union of their tags has two entries.
\<close>

theorem chunk_tag_union_counterexample:
  "seriesCommandsChunkToSeries [cpuAt1, cpuMemAt2] =
     Inr ([\<lparr>Entity = ''host1'', Metric = ''cpu'', Tags = [(''dc'', ''east'')],
             Data = [\<lparr>T = 1000, V = 10\<rparr>, \<lparr>T = 2000, V = 20\<rparr>]\<rparr>,
           \<lparr>Entity = ''host1'', Metric = ''mem'', Tags = [(''rack'', ''7'')],
             Data = [\<lparr>T = 2000, V = 5\<rparr>]\<rparr>], [])
   \<and> tagUnion [cpuAt1, cpuMemAt2] ''cpu'' = {(''dc'', ''east''), (''rack'', ''7'')}
   \<and> set [(''dc'', ''east'')] \<noteq> tagUnion [cpuAt1, cpuMemAt2] ''cpu''"
  by (auto simp add: seriesCommandsChunkToSeries_def Len_def chunkDrainLoop_Cons chunkDrainLoop_Nil
      tagUnion_def hasMetric_def gokeys_def example_defs)

theorem chunk_series_tags_of_first_witness:
  "allTimestamped [cpuAt1, cpuMemAt2] \<and> find (hasMetric ''cpu'') [cpuAt1, cpuMemAt2] = Some cpuAt1 \<and>
   (\<exists>series ch' s. seriesCommandsChunkToSeries [cpuAt1, cpuMemAt2] = Inr (series, ch') \<and>
      filter (\<lambda>x. Metric x = ''cpu'') series = [s] \<and>
      Tags s = [(''dc'', ''east'')] \<and> Entity s = ''host1'')"
proof -
  have h: "allTimestamped [cpuAt1, cpuMemAt2]"
    by (simp add: allTimestamped_def example_defs)
  have f: "find (hasMetric ''cpu'') [cpuAt1, cpuMemAt2] = Some cpuAt1"
    by (simp add: hasMetric_def gokeys_def example_defs)
  have "sc_Tags cpuAt1 = [(''dc'', ''east'')]" and "sc_Entity cpuAt1 = ''host1''"
    by (simp_all add: example_defs)
  with h f chunk_series_tags_of_first [OF h f] show ?thesis by simp
qed

subsection \<open>Nil timestamps\<close>

text \<open>
  Claim C3 at a failing input. A chunk that holds a command with a nil timestamp and an empty
  metric mapping, followed by a well-formed command, does not make the chunked transformer
  panic: it returns a wire Series object to the caller. The non-chunked transformer panics on
  the same commands.
\<close>

theorem chunk_nil_timestamp_undetected:
  "seriesCommandsChunkToSeries [untimedEmpty, cpuAt1] =
     Inr ([\<lparr>Entity = ''host1'', Metric = ''cpu'', Tags = [(''dc'', ''east'')],
             Data = [\<lparr>T = 1000, V = 10\<rparr>]\<rparr>], [])
   \<and> sc_Timestamp untimedEmpty = None
   \<and> seriesCommandsToSeries [untimedEmpty, cpuAt1] = Inl NilTimestamp"
  by (simp add: seriesCommandsChunkToSeries_def seriesCommandsToSeries_def Len_def
      chunkDrainLoop_Cons chunkDrainLoop_Nil example_defs)

subsection \<open>Grouping and draining of a chunk\<close>

text \<open>
  Claim C4. For every chunk whose commands all carry a timestamp (and whose metric mappings
  are Go maps), and every metric name that occurs in the chunk, the chunked transformation
  returns exactly one wire Series object with that metric name; its sample sequence is as
  long as the number of commands of the chunk that contain the metric name, and it consists
  of the samples of those commands in the order of the chunk from front to back.
\<close>

theorem chunk_series_grouped:
  assumes "allTimestamped ch" and "metricMaps ch"
    and "\<exists>c \<in> set ch. hasMetric k c"
  shows "\<exists>series ch' s. seriesCommandsChunkToSeries ch = Inr (series, ch') \<and>
           filter (\<lambda>x. Metric x = k) series = [s] \<and>
           length (Data s) = length (filter (hasMetric k) ch) \<and>
           Data s = List.map_filter (\<lambda>c. sampleOf c k) ch"
proof -
  from assms(3) obtain c0 where "find (hasMetric k) ch = Some c0"
    using find_hasMetric by blast
  with assms(1) obtain series where "seriesCommandsChunkToSeries ch = Inr (series, [])"
    and "filter (\<lambda>x. Metric x = k) series = [seriesEntry c0 k (chunkSamples ch k)]"
    by (rule chunk_series_for_metric)
  moreover from assms(2) have "\<forall>c \<in> set ch. wf_gomap (sc_Metrics c)"
    by (simp add: metricMaps_def)
  note wf = chunkSamples_wf [OF assms(1) this, of k]
  have "Data (seriesEntry c0 k (chunkSamples ch k)) = List.map_filter (\<lambda>c. sampleOf c k) ch"
    using wf [THEN conjunct1] by (simp add: seriesEntry_def)
  moreover have "length (Data (seriesEntry c0 k (chunkSamples ch k))) = length (filter (hasMetric k) ch)"
    using wf [THEN conjunct2] by (simp add: seriesEntry_def)
  ultimately show ?thesis by blast
qed

theorem chunk_series_grouped_witness:
  "allTimestamped [cpuAt1, cpuMemAt2] \<and> metricMaps [cpuAt1, cpuMemAt2] \<and>
   (\<exists>c \<in> set [cpuAt1, cpuMemAt2]. hasMetric ''cpu'' c) \<and>
   (\<exists>series ch' s. seriesCommandsChunkToSeries [cpuAt1, cpuMemAt2] = Inr (series, ch') \<and>
      filter (\<lambda>x. Metric x = ''cpu'') series = [s] \<and>
      length (Data s) = 2 \<and>
      Data s = [\<lparr>T = 1000, V = 10\<rparr>, \<lparr>T = 2000, V = 20\<rparr>])"
proof -
  have h: "allTimestamped [cpuAt1, cpuMemAt2]"
    by (simp add: allTimestamped_def example_defs)
  have w: "metricMaps [cpuAt1, cpuMemAt2]"
    by (simp add: metricMaps_def wf_gomap_def example_defs)
  have e: "\<exists>c \<in> set [cpuAt1, cpuMemAt2]. hasMetric ''cpu'' c"
    by (simp add: hasMetric_def gokeys_def example_defs)
  have "length (filter (hasMetric ''cpu'') [cpuAt1, cpuMemAt2]) = 2"
    and "List.map_filter (\<lambda>c. sampleOf c ''cpu'') [cpuAt1, cpuMemAt2] =
           [\<lparr>T = 1000, V = 10\<rparr>, \<lparr>T = 2000, V = 20\<rparr>]"
    by (simp_all add: hasMetric_def gokeys_def sampleOf_def List.map_filter_simps example_defs)
  with h w e chunk_series_grouped [OF h w e] show ?thesis by simp
qed

text \<open>
  Claim C6. For every chunk whose commands all carry a timestamp, the chunked transformation
  returns and leaves the chunk with zero elements; every entry of every metric mapping of the
  chunk is then a sample of the wire Series object of its metric name.
\<close>

theorem chunk_fully_drained:
  assumes "allTimestamped ch"
  shows "\<exists>series. seriesCommandsChunkToSeries ch = Inr (series, []) \<and>
           (\<forall>c \<in> set ch. \<forall>(k, v) \<in> set (sc_Metrics c). \<forall>t. sc_Timestamp c = Some t \<longrightarrow>
              (\<exists>s \<in> set series. Metric s = k \<and> \<lparr>T = t, V = v\<rparr> \<in> set (Data s)))"
proof -
  from assms obtain m' where d: "chunkDrainLoop ch [] = Inr (m', [])"
    and r: "seriesCommandsChunkToSeries ch = Inr (map snd m', [])"
    by (rule seriesCommandsChunkToSeries_drain)
  have "\<exists>s \<in> set (map snd m'). Metric s = k \<and> \<lparr>T = t, V = v\<rparr> \<in> set (Data s)"
    if c: "c \<in> set ch" and kv: "(k, v) \<in> set (sc_Metrics c)" and t: "sc_Timestamp c = Some t"
    for c k v t
  proof -
    from c kv have "\<exists>c \<in> set ch. hasMetric k c"
      by (force simp: hasMetric_def gokeys_def)
    then obtain c0 where "find (hasMetric k) ch = Some c0"
      using find_hasMetric by blast
    with chunkDrainLoop_map_of [OF assms d, of k]
    have "map_of m' k = Some (seriesEntry c0 k (chunkSamples ch k))" by simp
    then have "seriesEntry c0 k (chunkSamples ch k) \<in> set (map snd m')"
      by (force dest: map_of_SomeD)
    moreover from c t kv have "\<lparr>T = t, V = v\<rparr> \<in> set (chunkSamples ch k)"
      by (rule chunkSamples_covers)
    ultimately show ?thesis by (force simp: seriesEntry_def)
  qed
  with r show ?thesis by blast
qed

theorem chunk_fully_drained_witness:
  "allTimestamped [cpuAt1, cpuMemAt2] \<and>
   (\<exists>series. seriesCommandsChunkToSeries [cpuAt1, cpuMemAt2] = Inr (series, []))"
proof -
  have h: "allTimestamped [cpuAt1, cpuMemAt2]"
    by (simp add: allTimestamped_def example_defs)
  from chunk_fully_drained [OF h] have
    "\<exists>series. seriesCommandsChunkToSeries [cpuAt1, cpuMemAt2] = Inr (series, [])"
    by blast
  with h show ?thesis by simp
qed

section \<open>Properties of the retry executor\<close>

lemma taskStore_0: "taskStore task w 0 = w"
  by (simp add: taskStore_def)

lemma taskStore_Suc: "taskStore task w (Suc n) = taskStore task (snd (task w)) n"
  by (simp add: taskStore_def funpow_Suc_right del: funpow.simps)

lemma failsAt_0: "failsAt task w 0 \<longleftrightarrow> fst (task w) \<noteq> None"
  by (simp add: failsAt_def taskStore_0)

lemma failsAt_Suc: "failsAt task w (Suc i) \<longleftrightarrow> failsAt task (snd (task w)) i"
  by (simp add: failsAt_def taskStore_Suc)

lemma tryWhileNotCompleteLoop_done:
  "tryWhileNotCompleteLoop task taskName Duration Reset False False st = Some st"
  by (subst tryWhileNotCompleteLoop.simps) simp

lemma tryWhileNotCompleteLoop_success:
  assumes "firstTime \<or> hasErrors" and "task (store s) = (None, w)"
  shows "tryWhileNotCompleteLoop task taskName Duration Reset firstTime hasErrors (b, s) =
           Some (Reset b, s\<lparr>store := w\<rparr>)"
  using assms
  by (subst tryWhileNotCompleteLoop.simps) (simp add: tryWhileNotCompleteLoop_done)

lemma tryWhileNotCompleteLoop_failure:
  assumes "firstTime \<or> hasErrors" and "task (store s) = (Some e, w)"
  shows "tryWhileNotCompleteLoop task taskName Duration Reset firstTime hasErrors (b, s) =
           tryWhileNotCompleteLoop task taskName Duration Reset False True
             (snd (Duration b),
              s\<lparr>store := w,
                glog := glog s @ [[Str ''Could not perform '', Str taskName, Str '': '',
                                   Err e, Str ''waiting for '', Dur (fst (Duration b))]],
                slept := slept s @ [fst (Duration b)]\<rparr>)"
  using assms
  by (subst tryWhileNotCompleteLoop.simps) (simp add: case_prod_beta)

lemma tryWhileNotCompleteLoop_returns:
  assumes "firstTime \<or> hasErrors"
    and "\<forall>i<N. failsAt task (store s) i" and "\<not> failsAt task (store s) N"
  shows "\<exists>s'. tryWhileNotCompleteLoop task taskName Duration Reset firstTime hasErrors (b, s) =
                 Some (Reset (backoffAfter Duration b N), s') \<and>
               store s' = taskStore task (store s) (Suc N) \<and>
               slept s' = slept s @ backoffDurations Duration b N \<and>
               length (glog s') = length (glog s) + N \<and>
               counters s' = counters s"
  using assms
proof (induction N arbitrary: firstTime hasErrors b s)
  case 0
  then obtain w where w: "task (store s) = (None, w)"
    by (cases "task (store s)") (auto simp: failsAt_0)
  with 0(1) show ?case
    by (simp add: tryWhileNotCompleteLoop_success taskStore_Suc taskStore_0)
next
  case (Suc N)
  from Suc.prems(2) have "failsAt task (store s) 0" by blast
  then obtain e w where w: "task (store s) = (Some e, w)"
    by (cases "task (store s)") (auto simp: failsAt_0)
  let ?s1 = "s\<lparr>store := w,
                glog := glog s @ [[Str ''Could not perform '', Str taskName, Str '': '',
                                   Err e, Str ''waiting for '', Dur (fst (Duration b))]],
                slept := slept s @ [fst (Duration b)]\<rparr>"
  have fails: "\<forall>i<N. failsAt task (store ?s1) i"
  proof (intro allI impI)
    fix i assume "i < N"
    with Suc.prems(2) have "failsAt task (store s) (Suc i)" by simp
    with w show "failsAt task (store ?s1) i" by (simp add: failsAt_Suc)
  qed
  from Suc.prems(3) w have ok: "\<not> failsAt task (store ?s1) N"
    by (simp add: failsAt_Suc)
  from Suc.IH [of False True ?s1 "snd (Duration b)", OF _ fails ok]
  obtain s' where "tryWhileNotCompleteLoop task taskName Duration Reset False True (snd (Duration b), ?s1) =
                 Some (Reset (backoffAfter Duration (snd (Duration b)) N), s')"
    and "store s' = taskStore task (store ?s1) (Suc N)"
    and "slept s' = slept ?s1 @ backoffDurations Duration (snd (Duration b)) N"
    and "length (glog s') = length (glog ?s1) + N"
    and "counters s' = counters ?s1"
    by auto
  with w Suc.prems(1) show ?case
    by (simp add: tryWhileNotCompleteLoop_failure taskStore_Suc [of task "store s"])
qed

lemma tryWhileNotCompleteLoop_Some_succeeds:
  "tryWhileNotCompleteLoop task taskName Duration Reset firstTime hasErrors st = Some r \<Longrightarrow>
   firstTime \<or> hasErrors \<Longrightarrow> \<exists>i. \<not> failsAt task (store (snd st)) i"
proof (induction task taskName Duration Reset firstTime hasErrors st r
    rule: tryWhileNotCompleteLoop.raw_induct [rotated, consumes 1, case_names step])
  case (step loop task taskName Duration Reset firstTime hasErrors st r)
  note 1 = step
  obtain b s where st: "st = (b, s)" by (cases st)
  show ?case
  proof (cases "task (store s)")
    case (Pair res w)
    show ?thesis
    proof (cases res)
      case None
      with Pair have "\<not> failsAt task (store s) 0" by (simp add: failsAt_0)
      with st show ?thesis by auto
    next
      case (Some e)
      from 1 have "firstTime \<or> hasErrors" by blast
      with Some Pair 1(2) st obtain s1 b1 where run: "loop task taskName Duration Reset False True (b1, s1) = Some r"
        and s1: "store s1 = w"
        by (auto simp: case_prod_beta)
      from 1(1) [OF run] s1 obtain i where "\<not> failsAt task w i" by auto
      with Pair have "\<not> failsAt task (store s) (Suc i)" by (simp add: failsAt_Suc)
      with st show ?thesis by auto
    qed
  qed
qed

lemma tryWhileNotCompleteLoop_never_returns:
  "\<forall>i. failsAt task (store s) i \<Longrightarrow> firstTime \<or> hasErrors \<Longrightarrow>
   tryWhileNotCompleteLoop task taskName Duration Reset firstTime hasErrors (b, s) = None"
  using tryWhileNotCompleteLoop_Some_succeeds [of task taskName Duration Reset firstTime hasErrors "(b, s)"]
  by (cases "tryWhileNotCompleteLoop task taskName Duration Reset firstTime hasErrors (b, s)") auto

lemma alwaysFails_failsAt: "failsAt alwaysFails w i"
proof (induction i arbitrary: w)
  case 0
  show ?case by (simp add: failsAt_0 alwaysFails_def)
next
  case (Suc i)
  then show ?case by (simp add: failsAt_Suc)
qed

text \<open>
  Claim C5. For every number \<open>N\<close>, every backoff policy and every task whose first \<open>N\<close>
  invocations fail and whose invocation \<open>N + 1\<close> succeeds, \<^verbatim>\<open>tryWhileNotComplete\<close>
  returns; it has then invoked the task exactly \<open>N + 1\<close> times (the store is the one after
  \<open>N + 1\<close> invocations), slept exactly \<open>N\<close> times, for the first \<open>N\<close> successive values of
  the policy, logged \<open>N\<close> lines, and reset the policy. It returns no error: its result is
  the policy and the world. For a task whose every invocation fails it never returns.
\<close>

theorem retry_executor:
  "((\<forall>i<N. failsAt task (store s) i) \<and> \<not> failsAt task (store s) N \<longrightarrow>
      (\<exists>s'. tryWhileNotComplete task taskName Duration Reset (b, s) =
                Some (Reset (backoffAfter Duration b N), s') \<and>
            store s' = taskStore task (store s) (Suc N) \<and>
            slept s' = slept s @ backoffDurations Duration b N \<and>
            length (glog s') = length (glog s) + N \<and>
            counters s' = counters s)) \<and>
   ((\<forall>i. failsAt task (store s) i) \<longrightarrow>
      tryWhileNotComplete task taskName Duration Reset (b, s) = None)"
  unfolding tryWhileNotComplete_def
  using tryWhileNotCompleteLoop_returns [of True False N task s taskName Duration Reset b]
    tryWhileNotCompleteLoop_never_returns [of task s True False taskName Duration Reset b]
  by blast

theorem retry_executor_witness:
  "(\<exists>s'. tryWhileNotComplete failsTwice ''series insert'' ExpBackoff_Duration ExpBackoff_Reset
            (NewExpBackoff (100 * Millisecond) (5 * Minute), newWorld 0) =
            Some (NewExpBackoff (100 * Millisecond) (5 * Minute), s') \<and>
         store s' = 3 \<and>
         slept s' = [100 * Millisecond, 200 * Millisecond] \<and>
         length (glog s') = 2) \<and>
   tryWhileNotComplete alwaysFails ''series insert'' ExpBackoff_Duration ExpBackoff_Reset
     (NewExpBackoff (100 * Millisecond) (5 * Minute), newWorld 0) = None"
proof -
  let ?b = "NewExpBackoff (100 * Millisecond) (5 * Minute)"
  have f: "\<forall>i<2. failsAt failsTwice (store (newWorld 0)) i"
  proof (intro allI impI)
    fix i :: nat assume "i < 2"
    then have "i = 0 \<or> i = 1" by auto
    then show "failsAt failsTwice (store (newWorld 0)) i"
      by (auto simp: failsAt_def taskStore_def failsTwice_def newWorld_def)
  qed
  have s: "\<not> failsAt failsTwice (store (newWorld 0)) 2"
    by (simp add: failsAt_def taskStore_def failsTwice_def newWorld_def numeral_2_eq_2)
  have a: "\<forall>i. failsAt alwaysFails (store (newWorld 0)) i"
    by (simp add: alwaysFails_failsAt)
  have st: "taskStore failsTwice (store (newWorld 0)) (Suc 2) = 3"
    by (simp add: taskStore_def failsTwice_def newWorld_def numeral_2_eq_2)
  have d: "backoffDurations ExpBackoff_Duration ?b 2 = [100 * Millisecond, 200 * Millisecond]"
    by (simp add: numeral_2_eq_2 ExpBackoff_Duration_def NewExpBackoff_def Millisecond_def Minute_def)
  have r: "ExpBackoff_Reset (backoffAfter ExpBackoff_Duration ?b 2) = ?b"
    by (simp add: numeral_2_eq_2 ExpBackoff_Duration_def ExpBackoff_Reset_def NewExpBackoff_def)
  have g: "slept (newWorld (0::nat)) = []" "glog (newWorld (0::nat)) = []"
    by (simp_all add: newWorld_def)
  from retry_executor [of 2 failsTwice "newWorld 0" "''series insert''" ExpBackoff_Duration
      ExpBackoff_Reset ?b, THEN conjunct1, THEN mp, OF conjI [OF f s]]
    retry_executor [of 2 alwaysFails "newWorld 0" "''series insert''" ExpBackoff_Duration
      ExpBackoff_Reset ?b, THEN conjunct2, THEN mp, OF a]
  show ?thesis
    unfolding st d r g by fastforce
qed

section \<open>Properties of the message transformer\<close>

lemma messageTagsLoop_tags:
  "distinct (map fst tags) \<Longrightarrow>
   map_of (m_Tags (messageTagsLoop tags m)) k =
     (case map_of tags k of Some v \<Rightarrow> Some v | None \<Rightarrow> map_of (m_Tags m) k)"
proof (induction tags arbitrary: m)
  case Nil
  then show ?case by simp
next
  case (Cons p tags)
  obtain key val where p: "p = (key, val)" by (cases p)
  from Cons.prems have d: "distinct (map fst tags)" and fresh: "map_of tags key = None"
    by (auto simp: p map_of_eq_None_iff)
  show ?case
    using fresh
    by (simp add: p Let_def Cons.IH [OF d] Message_SetTag_def AList.update_conv'
        split: option.splits)
qed

lemma messageTagsLoop_step:
  "messageTagsLoop ((key, val) # tags) m =
     messageTagsLoop tags
       (m\<lparr>m_Severity := (if key = ''severity'' then Some val else m_Severity m),
          m_Source := (if key = ''source'' then Some val else m_Source m),
          m_Type := (if key = ''type'' then Some val else m_Type m),
          m_Tags := AList.update key val (m_Tags m)\<rparr>)"
  by (simp add: Let_def Message_SetTag_def)

lemma messageTagsLoop_Severity:
  "distinct (map fst tags) \<Longrightarrow>
   m_Severity (messageTagsLoop tags m) =
     (case map_of tags ''severity'' of Some v \<Rightarrow> Some v | None \<Rightarrow> m_Severity m)"
proof (induction tags arbitrary: m)
  case Nil
  then show ?case by simp
next
  case (Cons p tags)
  obtain key val where p: "p = (key, val)" by (cases p)
  from Cons.prems have d: "distinct (map fst tags)" and fresh: "map_of tags key = None"
    by (auto simp: p map_of_eq_None_iff)
  show ?case
    unfolding p messageTagsLoop_step Cons.IH [OF d]
    using fresh by (cases "key = ''severity''") (simp_all split: option.splits)
qed

lemma messageTagsLoop_Source:
  "distinct (map fst tags) \<Longrightarrow>
   m_Source (messageTagsLoop tags m) =
     (case map_of tags ''source'' of Some v \<Rightarrow> Some v | None \<Rightarrow> m_Source m)"
proof (induction tags arbitrary: m)
  case Nil
  then show ?case by simp
next
  case (Cons p tags)
  obtain key val where p: "p = (key, val)" by (cases p)
  from Cons.prems have d: "distinct (map fst tags)" and fresh: "map_of tags key = None"
    by (auto simp: p map_of_eq_None_iff)
  show ?case
    unfolding p messageTagsLoop_step Cons.IH [OF d]
    using fresh by (cases "key = ''source''") (simp_all split: option.splits)
qed

lemma messageTagsLoop_Type:
  "distinct (map fst tags) \<Longrightarrow>
   m_Type (messageTagsLoop tags m) =
     (case map_of tags ''type'' of Some v \<Rightarrow> Some v | None \<Rightarrow> m_Type m)"
proof (induction tags arbitrary: m)
  case Nil
  then show ?case by simp
next
  case (Cons p tags)
  obtain key val where p: "p = (key, val)" by (cases p)
  from Cons.prems have d: "distinct (map fst tags)" and fresh: "map_of tags key = None"
    by (auto simp: p map_of_eq_None_iff)
  show ?case
    unfolding p messageTagsLoop_step Cons.IH [OF d]
    using fresh by (cases "key = ''type''") (simp_all split: option.splits)
qed

lemma messageCommandToMessage_fields:
  "m_Severity (messageCommandToMessage c) = m_Severity (messageTagsLoop (mc_Tags c)
      ((NewMessage (mc_Entity c))\<lparr>m_Message := mc_Message c\<rparr>))"
  "m_Source (messageCommandToMessage c) = m_Source (messageTagsLoop (mc_Tags c)
      ((NewMessage (mc_Entity c))\<lparr>m_Message := mc_Message c\<rparr>))"
  "m_Type (messageCommandToMessage c) = m_Type (messageTagsLoop (mc_Tags c)
      ((NewMessage (mc_Entity c))\<lparr>m_Message := mc_Message c\<rparr>))"
  "m_Tags (messageCommandToMessage c) = m_Tags (messageTagsLoop (mc_Tags c)
      ((NewMessage (mc_Entity c))\<lparr>m_Message := mc_Message c\<rparr>))"
  by (simp_all add: messageCommandToMessage_def Let_def split: option.splits)

lemma messageCommandsLoop_map:
  "messageCommandsLoop cmds messages = messages @ map messageCommandToMessage cmds"
  by (induction cmds arbitrary: messages) auto

lemma messageCommandsToProperties_map:
  "messageCommandsToProperties cmds = map messageCommandToMessage cmds"
  by (simp add: messageCommandsToProperties_def messageCommandsLoop_map)

lemma messageCommandToMessage_reserved:
  assumes "wf_gomap (mc_Tags c)" and "(key, val) \<in> set (mc_Tags c)"
  shows "map_of (m_Tags (messageCommandToMessage c)) key = Some val"
    and "key \<in> {''severity'', ''source'', ''type''} \<Longrightarrow>
         dedicatedField key (messageCommandToMessage c) = Some val"
proof -
  from assms have d: "distinct (map fst (mc_Tags c))" and kv: "map_of (mc_Tags c) key = Some val"
    by (simp_all add: wf_gomap_def)
  show "map_of (m_Tags (messageCommandToMessage c)) key = Some val"
    using kv by (simp add: messageCommandToMessage_fields messageTagsLoop_tags [OF d])
  assume "key \<in> {''severity'', ''source'', ''type''}"
  then consider "key = ''severity''" | "key = ''source''" | "key = ''type''" by blast
  then show "dedicatedField key (messageCommandToMessage c) = Some val"
  proof cases
    case 1
    with kv show ?thesis
      by (simp add: dedicatedField_def messageCommandToMessage_fields messageTagsLoop_Severity [OF d])
  next
    case 2
    with kv show ?thesis
      by (simp add: dedicatedField_def messageCommandToMessage_fields messageTagsLoop_Source [OF d])
  next
    case 3
    with kv show ?thesis
      by (simp add: dedicatedField_def messageCommandToMessage_fields messageTagsLoop_Type [OF d])
  qed
qed

text \<open>
  Claim C8. For every batch of message commands and every command of it whose tag mapping (a
  Go map) contains a reserved key, \<^verbatim>\<open>severity\<close>, \<^verbatim>\<open>source\<close> or \<^verbatim>\<open>type\<close>, with
  some value (such as \<^verbatim>\<open>severity\<close> with \<^verbatim>\<open>WARNING\<close>), the wire Message of that command
  has that value in the dedicated field of the key, and its generic tag set still contains
  the key with that value.
\<close>

theorem message_reserved_tags:
  assumes "i < length cmds" and "wf_gomap (mc_Tags (cmds ! i))"
    and "(key, val) \<in> set (mc_Tags (cmds ! i))"
    and "key \<in> {''severity'', ''source'', ''type''}"
  shows "length (messageCommandsToProperties cmds) = length cmds \<and>
         dedicatedField key (messageCommandsToProperties cmds ! i) = Some val \<and>
         map_of (m_Tags (messageCommandsToProperties cmds ! i)) key = Some val"
  using assms
  by (simp add: messageCommandsToProperties_map messageCommandToMessage_reserved)

theorem message_reserved_tags_witness:
  "(''severity'', ''WARNING'') \<in> set (mc_Tags warningMessage) \<and>
   m_Severity (messageCommandsToProperties [warningMessage] ! 0) = Some ''WARNING'' \<and>
   map_of (m_Tags (messageCommandsToProperties [warningMessage] ! 0)) ''severity'' = Some ''WARNING''"
proof -
  have 1: "0 < length [warningMessage]" by simp
  have 2: "wf_gomap (mc_Tags ([warningMessage] ! 0))"
    by (simp add: wf_gomap_def warningMessage_def)
  have 3: "(''severity'', ''WARNING'') \<in> set (mc_Tags ([warningMessage] ! 0))"
    by (simp add: warningMessage_def)
  have 4: "''severity'' \<in> {''severity'', ''source'', ''type''}" by simp
  from 3 message_reserved_tags [OF 1 2 3 4] show ?thesis
    by (simp add: dedicatedField_def)
qed

section \<open>Properties of \<^verbatim>\<open>PriorSendData\<close>\<close>



lemma counters_logError: "counters (logError line s) = counters s"
  by (simp add: logError_def)

lemma counters_priorEntities: "counters (priorEntities client entities s) = counters s"
proof (induction entities arbitrary: s)
  case Nil
  show ?case by simp
next
  case (Cons entity entities)
  show ?case
    by (simp add: Cons.IH counters_logError split: prod.splits option.splits)
qed

lemma counters_priorProperties: "counters (priorProperties client propertyCommands s) = counters s"
  by (simp add: priorProperties_def counters_logError split: prod.splits option.splits)

lemma counters_priorSeries: "counters (snd (priorSeries client seriesCommands s)) = counters s"
  by (simp add: priorSeries_def counters_logError split: prod.splits option.splits sum.splits)

lemma counters_priorMessages: "counters (priorMessages client messageCommands s) = counters s"
  by (simp add: priorMessages_def counters_logError split: prod.splits option.splits)

lemma counters_PriorSendData:
  "counters (snd (PriorSendData client seriesCommands entityTagCommands propertyCommands
      messageCommands s)) = counters s"
proof -
  let ?s2 = "priorProperties client propertyCommands
               (priorEntities client (entityTagCommandsToEntities entityTagCommands) s)"
  have s2: "counters ?s2 = counters s"
    by (simp add: counters_priorProperties counters_priorEntities)
  obtain res s3 where ps: "priorSeries client seriesCommands ?s2 = (res, s3)"
    by (cases "priorSeries client seriesCommands ?s2")
  with counters_priorSeries [of client seriesCommands ?s2] s2 have "counters s3 = counters s"
    by simp
  with ps show ?thesis
    by (cases res) (simp_all add: PriorSendData_def Let_def counters_priorMessages)
qed




text \<open>
  Claim C10. For every input, \<^verbatim>\<open>PriorSendData\<close> leaves all eight counters as they were,
  also when it panics, so that \<^verbatim>\<open>SelfMetricValues\<close> reports the same values after the
  call as before it.
\<close>

theorem prior_send_keeps_counters:
  "counters (snd (PriorSendData client seriesCommands entityTagCommands propertyCommands
      messageCommands s)) = counters s \<and>
   SelfMetricValues client (snd (PriorSendData client seriesCommands entityTagCommands
      propertyCommands messageCommands s)) = SelfMetricValues client s"
  by (simp add: SelfMetricValues_def counters_PriorSendData)

theorem prior_send_keeps_counters_witness:
  "counters (snd (PriorSendData recordingClient [cpuAt1] [host1Tags] [] [warningMessage]
      (newWorld []))) = newCounters"
  using prior_send_keeps_counters [of recordingClient "[cpuAt1]" "[host1Tags]" "[]"
      "[warningMessage]" "newWorld []"]
  by (simp add: newWorld_def)

section \<open>The dropped counters\<close>











end
